theory Spec2Isabelle
  imports Complex_Main "HOL-Library.Word"
begin

section \<open>Numbers\<close>

text \<open>
  The shaders compute cell coordinates and buffer indices in \<open>u32\<close>: 32-bit words whose
  \<open>+\<close>, \<open>-\<close> and \<open>*\<close> wrap around. JavaScript numbers and the shaders' \<open>f32\<close> values
  are modelled as reals: rounding, NaN and the infinities are outside the model.
\<close>

type_synonym u32 = "32 word"
type_synonym vec2u = "u32 \<times> u32"
type_synonym vec2f = "real \<times> real"
type_synonym vec4f = "real \<times> real \<times> real \<times> real"

text \<open>Rounding towards zero, as JavaScript's and WGSL's \<open>trunc\<close> do.\<close>

definition trunc :: "real \<Rightarrow> int" where
  "trunc v = (if 0 \<le> v then \<lfloor>v\<rfloor> else \<lceil>v\<rceil>)"

text \<open>
  The remainder \<open>a % b\<close> of JavaScript numbers and of WGSL floats: \<open>a - b * trunc (a / b)\<close>,
  which has the sign of \<open>a\<close>.
\<close>

definition rem :: "real \<Rightarrow> real \<Rightarrow> real" where
  "rem a b = a - b * of_int (trunc (a / b))"

text \<open>
  The remainder \<open>a % b\<close> of WGSL on \<open>u32\<close>; a zero divisor gives 0 there, where HOL's
  \<open>mod\<close> would return \<open>a\<close>.
\<close>

definition rem_u32 :: "u32 \<Rightarrow> u32 \<Rightarrow> u32" where
  "rem_u32 a b = (if b = 0 then 0 else a mod b)"

text \<open>
  A storage buffer of \<open>u32\<close> is a list. Every index the shaders compute is shown to be in
  range where a claim needs it; out of range, a read gives 0 and a write is dropped, one
  of the behaviours WGSL allows.
\<close>

definition load :: "u32 list \<Rightarrow> nat \<Rightarrow> u32" where
  "load buf i = (if i < length buf then buf ! i else 0)"

definition store :: "u32 list \<Rightarrow> nat \<Rightarrow> u32 \<Rightarrow> u32 list" where
  "store buf i v = (if i < length buf then buf[i := v] else buf)"

section \<open>simulate.wgsl\<close>

text \<open>
  The uniform \<open>grid\<close> is a \<open>vec2f\<close>; the shader only uses \<open>u32(grid.x)\<close> and
  \<open>u32(grid.y)\<close>, so the model passes the converted pair.
\<close>

definition cellIndex :: "vec2u \<Rightarrow> vec2u \<Rightarrow> u32" where
  "cellIndex grid cell =
     rem_u32 (snd cell) (snd grid) * fst grid + rem_u32 (fst cell) (fst grid)"

definition cellState :: "vec2u \<Rightarrow> u32 list \<Rightarrow> u32 \<Rightarrow> u32 \<Rightarrow> u32" where
  "cellState grid cellStateIn x y = load cellStateIn (unat (cellIndex grid (x, y)))"

text \<open>The eight coordinates handed to \<open>cellState\<close>, in the order of the source.\<close>

definition neighborCells :: "vec2u \<Rightarrow> vec2u list" where
  "neighborCells cell =
     (let x = fst cell; y = snd cell
      in [(x + 1, y), (x - 1, y), (x, y + 1), (x, y - 1),
          (x + 1, y + 1), (x - 1, y - 1), (x + 1, y - 1), (x - 1, y + 1)])"

definition aliveNeighbors :: "vec2u \<Rightarrow> u32 list \<Rightarrow> vec2u \<Rightarrow> u32" where
  "aliveNeighbors grid cellStateIn cell =
     (let x = fst cell; y = snd cell
      in cellState grid cellStateIn (x + 1) y +
         cellState grid cellStateIn (x - 1) y +
         cellState grid cellStateIn x (y + 1) +
         cellState grid cellStateIn x (y - 1) +
         cellState grid cellStateIn (x + 1) (y + 1) +
         cellState grid cellStateIn (x - 1) (y - 1) +
         cellState grid cellStateIn (x + 1) (y - 1) +
         cellState grid cellStateIn (x - 1) (y + 1))"

text \<open>One invocation of the compute shader; the result is the output buffer.\<close>

definition simulate :: "vec2u \<Rightarrow> u32 list \<Rightarrow> u32 list \<Rightarrow> vec2u \<Rightarrow> u32 list" where
  "simulate grid cellStateIn cellStateOut cell =
     (let n = aliveNeighbors grid cellStateIn cell;
          i = unat (cellIndex grid cell)
      in if n = 2 then store cellStateOut i (load cellStateIn i)
         else if n = 3 then store cellStateOut i 1
         else store cellStateOut i 0)"

text \<open>
  The transition table of the Game of Life in the words of the specification: a dead cell
  with exactly 3 live neighbours becomes alive, a live cell with 2 or 3 stays alive, every
  other cell is dead.
\<close>

definition life_rule :: "bool \<Rightarrow> nat \<Rightarrow> bool" where
  "life_rule alive n = (if alive then n = 2 \<or> n = 3 else n = 3)"

text \<open>The number of the eight neighbour lookups of a cell that read a live cell.\<close>

definition liveLookups :: "vec2u \<Rightarrow> u32 list \<Rightarrow> vec2u \<Rightarrow> nat" where
  "liveLookups grid cellStateIn cell =
     length (filter (\<lambda>c. cellState grid cellStateIn (fst c) (snd c) = 1) (neighborCells cell))"

text \<open>
  The coordinate a neighbour lookup should reach on the torus, in the words of the
  specification: \<open>(x + dx) mod width\<close> and \<open>(y + dy) mod height\<close> with \<open>dx\<close>, \<open>dy\<close> in
  \<open>{-1, 0, 1}\<close>, and its row-major index.
\<close>

definition neighborOffsets :: "(int \<times> int) list" where
  "neighborOffsets =
     [(1, 0), (- 1, 0), (0, 1), (0, - 1), (1, 1), (- 1, - 1), (1, - 1), (- 1, 1)]"

definition wrapped :: "nat \<Rightarrow> int \<Rightarrow> nat \<Rightarrow> nat" where
  "wrapped extent d v = nat ((int v + d) mod int extent)"

definition torusIndex :: "nat \<Rightarrow> nat \<Rightarrow> int \<times> int \<Rightarrow> nat \<times> nat \<Rightarrow> nat" where
  "torusIndex width height d cell =
     wrapped height (snd d) (snd cell) * width + wrapped width (fst d) (fst cell)"

text \<open>
  The number of live Moore neighbours of a cell on the torus: of the eight offsets, those
  whose wrapped coordinate holds a live cell.
\<close>

definition liveMoore :: "nat \<Rightarrow> nat \<Rightarrow> u32 list \<Rightarrow> nat \<times> nat \<Rightarrow> nat" where
  "liveMoore width height cells c =
     length (filter (\<lambda>d. load cells (torusIndex width height d c) = 1) neighborOffsets)"

section \<open>main.ts: colours\<close>

definition hueToRgb :: "real \<Rightarrow> real \<Rightarrow> real \<Rightarrow> real" where
  "hueToRgb p q t0 =
     (let t1 = (if t0 < 0 then t0 + 1 else t0);
          t = (if t1 > 1 then t1 - 1 else t1)
      in if t < 1 / 6 then p + (q - p) * 6 * t
         else if t < 1 / 2 then q
         else if t < 2 / 3 then p + (q - p) * (2 / 3 - t) * 6
         else p)"

definition hslToRgb :: "real \<Rightarrow> real \<Rightarrow> real \<Rightarrow> real \<times> real \<times> real" where
  "hslToRgb h s l =
     (if s = 0 then (l, l, l)
      else let q = (if l < 0.5 then l * (1 + s) else l + s - l * s);
               p = 2 * l - q
           in (hueToRgb p q (h + 1 / 3), hueToRgb p q h, hueToRgb p q (h - 1 / 3)))"

text \<open>The first statement of \<open>render\<close>, as a function of the two fields it reads.\<close>

definition gradientOffset :: "real \<Rightarrow> real \<Rightarrow> real" where
  "gradientOffset tm disco = rem tm (1 / disco) * disco"

text \<open>The four corner colours: the sixteen floats \<open>render\<close> writes to the colour buffer.\<close>

definition cornerColors :: "real \<Rightarrow> real list" where
  "cornerColors offset =
     (let color1 = hslToRgb (offset + 0.2) 0.5 0.5;
          color2 = hslToRgb (offset + 0.4) 0.5 0.5;
          color3 = hslToRgb (offset + 0.6) 0.5 0.5;
          color4 = hslToRgb (offset + 0.8) 0.5 0.5
      in [fst color1, fst (snd color1), snd (snd color1), 1,
          fst color2, fst (snd color2), snd (snd color2), 1,
          fst color3, fst (snd color3), snd (snd color3), 1,
          fst color4, fst (snd color4), snd (snd color4), 1])"

section \<open>cell.wgsl\<close>

definition scale4 :: "vec4f \<Rightarrow> real \<Rightarrow> vec4f" where
  "scale4 v k = (case v of (r, g, b, a) \<Rightarrow> (r * k, g * k, b * k, a * k))"

definition add4 :: "vec4f \<Rightarrow> vec4f \<Rightarrow> vec4f" where
  "add4 v w = (case v of (r, g, b, a) \<Rightarrow> case w of (r', g', b', a') \<Rightarrow>
     (r + r', g + g', b + b', a + a'))"

text \<open>The uniform \<open>colors\<close>, an array of four \<open>vec4f\<close>, as the shader sees the colour buffer.\<close>

definition colorsAt :: "real list \<Rightarrow> nat \<Rightarrow> vec4f" where
  "colorsAt buf k = (buf ! (4 * k), buf ! (4 * k + 1), buf ! (4 * k + 2), buf ! (4 * k + 3))"

text \<open>
  A colour as \<open>render\<close> writes it is in range when its red, green and blue channels lie
  in \<open>[0, 1]\<close> and its alpha channel is 1.
\<close>

definition channelsOk :: "vec4f \<Rightarrow> bool" where
  "channelsOk v = (case v of (r, g, b, a) \<Rightarrow>
     0 \<le> r \<and> r \<le> 1 \<and> 0 \<le> g \<and> g \<le> 1 \<and> 0 \<le> b \<and> b \<le> 1 \<and> a = 1)"

record VertexOutput =
  position :: vec4f
  cell :: vec2f

definition vertexMain :: "vec2f \<Rightarrow> u32 list \<Rightarrow> vec2f \<Rightarrow> nat \<Rightarrow> VertexOutput" where
  "vertexMain grid states pos instanceIndex =
     (let i = real instanceIndex;
          c = (rem i (fst grid), of_int \<lfloor>i / fst grid\<rfloor>);
          cellOffset = (fst c / fst grid * 2, snd c / snd grid * 2);
          state = real (unat (load states instanceIndex));
          gridPos = ((fst pos * state + 1) / fst grid - 1 + fst cellOffset,
                     (snd pos * state + 1) / snd grid - 1 + snd cellOffset)
      in \<lparr>position = (fst gridPos, snd gridPos, 0, 1), cell = c\<rparr>)"

definition fragmentMain :: "vec2f \<Rightarrow> (nat \<Rightarrow> vec4f) \<Rightarrow> vec2f \<Rightarrow> vec4f" where
  "fragmentMain grid colors c =
     (let factor = (fst c / fst grid, snd c / snd grid);
          left = add4 (scale4 (colors 0) (1 - fst factor)) (scale4 (colors 1) (fst factor));
          right = add4 (scale4 (colors 2) (1 - fst factor)) (scale4 (colors 3) (fst factor))
      in add4 (scale4 left (1 - snd factor)) (scale4 right (snd factor)))"

text \<open>Linear interpolation, in the words of the specification, on one channel and on a colour.\<close>

definition lerp :: "real \<Rightarrow> real \<Rightarrow> real \<Rightarrow> real" where
  "lerp a b f = a + (b - a) * f"

definition lerp4 :: "vec4f \<Rightarrow> vec4f \<Rightarrow> real \<Rightarrow> vec4f" where
  "lerp4 v w f = (case v of (r, g, b, a) \<Rightarrow> case w of (r', g', b', a') \<Rightarrow>
     (lerp r r' f, lerp g g' f, lerp b b' f, lerp a a' f))"

section \<open>main.ts: the class GameOfLife\<close>

text \<open>
  A bind group names, by their index in \<open>cell_storage_buffer\<close>, the buffer bound at
  binding 2 (\<open>cellStateIn\<close> of the compute shader, \<open>states\<close> of the vertex shader) and
  the buffer bound at binding 3 (\<open>cellStateOut\<close>).
\<close>

record bindGroup =
  binding2 :: nat
  binding3 :: nat

definition bindGroups :: "bindGroup list" where
  "bindGroups = [\<lparr>binding2 = 0, binding3 = 1\<rparr>, \<lparr>binding2 = 1, binding3 = 0\<rparr>]"

text \<open>
  The fields of the class that hold data. Buffers are held by their contents. The handles
  (canvas, adapter, device, context, the two pipelines) are the extension part of the
  record, which no function below touches.
\<close>

record GameOfLife =
  grid_size :: nat
  time :: real
  step :: real
  disco_speed :: real
  sim_speed :: real
  vertexBuffer :: "real list"
  uniformBuffer :: "real list"
  colorBuffer :: "real list"
  cell_storage_buffer :: "u32 list list"

text \<open>
  The constructor followed by \<open>setup\<close>. The argument \<open>random\<close> gives the successive
  results of \<open>Math.random()\<close>.
\<close>

definition setupGame :: "nat \<Rightarrow> real \<Rightarrow> real \<Rightarrow> (nat \<Rightarrow> real) \<Rightarrow> GameOfLife" where
  "setupGame gs disco sim random =
     (let cellStateArray = map (\<lambda>i. if random i > 0.6 then 1 else 0) [0..<gs * gs]
      in \<lparr>grid_size = gs, time = 0, step = 0, disco_speed = disco, sim_speed = sim,
          vertexBuffer = [-0.8, -0.8, 0.8, -0.8, 0.8, 0.8, -0.8, -0.8, 0.8, 0.8, -0.8, 0.8],
          uniformBuffer = [real gs, real gs],
          colorBuffer = replicate 16 0,
          cell_storage_buffer = [cellStateArray, cellStateArray]\<rparr>)"

definition tick :: "'a GameOfLife_scheme \<Rightarrow> 'a GameOfLife_scheme" where
  "tick g =
     (let delta = 1 / 60;
          g1 = g\<lparr>time := time g + delta\<rparr>
      in g1\<lparr>step := step g1 + delta * sim_speed g1\<rparr>)"

text \<open>
  \<open>this.bindGroups[Math.floor(this.step % 2)]\<close>: outside the array JavaScript gives
  \<open>undefined\<close>, here \<open>None\<close>.
\<close>

definition bindGroupIndex :: "real \<Rightarrow> int" where
  "bindGroupIndex s = \<lfloor>rem s 2\<rfloor>"

definition selectBindGroup :: "real \<Rightarrow> bindGroup option" where
  "selectBindGroup s =
     (let i = bindGroupIndex s
      in if 0 \<le> i \<and> nat i < length bindGroups then Some (bindGroups ! nat i) else None)"

text \<open>
  An argument of type \<open>GPUSize32\<close>: WebIDL's conversion with \<open>[EnforceRange]\<close> drops the
  fraction and throws a TypeError outside \<open>0 .. 2^32 - 1\<close>.
\<close>

definition GPUSize32 :: "real \<Rightarrow> nat option" where
  "GPUSize32 v = (let n = trunc v in if 0 \<le> n \<and> n < 2 ^ 32 then Some (nat n) else None)"

text \<open>\<open>pass.draw(6, this.grid_size * this.grid_size * 2)\<close>: vertex and instance count.\<close>

definition drawCall :: "nat \<Rightarrow> nat option \<times> nat option" where
  "drawCall gs = (GPUSize32 6, GPUSize32 (real gs * real gs * 2))"

text \<open>\<open>computePass.dispatchWorkgroups(this.grid_size / 8, this.grid_size / 8, 1)\<close>.\<close>

definition dispatchCall :: "nat \<Rightarrow> nat option \<times> nat option \<times> nat option" where
  "dispatchCall gs = (GPUSize32 (real gs / 8), GPUSize32 (real gs / 8), GPUSize32 1)"

text \<open>
  The invocations of a dispatch of \<open>nx \<times> ny \<times> 1\<close> workgroups of size \<open>8 \<times> 8 \<times> 1\<close>, by
  their \<open>global_invocation_id.xy\<close>. The device runs them in no fixed order; the model runs
  them row by row.
\<close>

definition invocations :: "nat \<Rightarrow> nat \<Rightarrow> (nat \<times> nat) list" where
  "invocations nx ny = concat (map (\<lambda>y. map (\<lambda>x. (x, y)) [0..<8 * nx]) [0..<8 * ny])"

text \<open>
  One invocation on the device's buffers: the shader reads the buffer at binding 2 and
  writes the buffer at binding 3, whichever buffers these are.
\<close>

definition invoke :: "vec2u \<Rightarrow> bindGroup \<Rightarrow> nat \<times> nat \<Rightarrow> u32 list list \<Rightarrow> u32 list list" where
  "invoke grid bg c bufs =
     bufs[binding3 bg :=
       simulate grid (bufs ! binding2 bg) (bufs ! binding3 bg) (of_nat (fst c), of_nat (snd c))]"

definition computePass ::
  "vec2u \<Rightarrow> bindGroup \<Rightarrow> nat \<Rightarrow> nat \<Rightarrow> u32 list list \<Rightarrow> u32 list list" where
  "computePass grid bg nx ny bufs = fold (invoke grid bg) (invocations nx ny) bufs"

text \<open>The grid uniform as the compute shader converts it: \<open>u32(grid.x)\<close>, \<open>u32(grid.y)\<close>.\<close>

definition gridU32 :: "nat \<Rightarrow> vec2u" where
  "gridU32 gs = (of_nat gs, of_nat gs)"

text \<open>
  \<open>render\<close>. The colour buffer is written first. Without a bind group (an index outside
  the array), or with a count that the conversion to \<open>GPUSize32\<close> rejects, neither pass
  runs. The result is the state and whether the passes ran. The image drawn is not part
  of the state.
\<close>

definition render :: "'a GameOfLife_scheme \<Rightarrow> 'a GameOfLife_scheme \<times> bool" where
  "render g =
     (let offset = gradientOffset (time g) (disco_speed g);
          g1 = g\<lparr>colorBuffer := cornerColors offset\<rparr>
      in case selectBindGroup (step g1) of
           None \<Rightarrow> (g1, False)
         | Some bg \<Rightarrow>
             (case (drawCall (grid_size g1), dispatchCall (grid_size g1)) of
                ((Some vc, Some ic), (Some nx, Some ny, Some nz)) \<Rightarrow>
                  (g1\<lparr>cell_storage_buffer :=
                        computePass (gridU32 (grid_size g1)) bg nx ny (cell_storage_buffer g1)\<rparr>,
                   True)
              | _ \<Rightarrow> (g1, False)))"

text \<open>The calls the interval timer makes, in any order.\<close>

datatype call = Tick | Render

fun run :: "call list \<Rightarrow> 'a GameOfLife_scheme \<Rightarrow> 'a GameOfLife_scheme" where
  "run [] g = g"
| "run (Tick # cs) g = run cs (tick g)"
| "run (Render # cs) g = run cs (fst (render g))"

section \<open>The update rule\<close>

lemma load_bit: "\<forall>v\<in>set buf. v = 0 \<or> v = 1 \<Longrightarrow> load buf i = 0 \<or> load buf i = 1"
  by (simp add: load_def)

lemma sum_bits: "\<forall>v\<in>set vs. v = 0 \<or> v = (1::u32) \<Longrightarrow> length vs < 2 ^ 32 \<Longrightarrow>
  unat (sum_list vs) = length (filter (\<lambda>v. v = 1) vs)"
proof (induction vs)
  case Nil
  then show ?case by simp
next
  case (Cons v vs)
  then have ih: "unat (sum_list vs) = length (filter (\<lambda>v. v = 1) vs)" by simp
  have le: "length (filter (\<lambda>v. v = 1) vs) \<le> length vs" by simp
  from Cons.prems have "v = 0 \<or> v = 1" by simp
  then show ?case
  proof
    assume "v = 0" then show ?thesis using ih by simp
  next
    assume v: "v = 1"
    have "Suc (length (filter (\<lambda>v. v = 1) vs)) \<le> length (v # vs)"
      by simp
    then have "Suc (length (filter (\<lambda>v. v = 1) vs)) < 2 ^ 32"
      using Cons.prems(2) by (rule le_less_trans)
    then have "unat (1 + sum_list vs) = 1 + unat (sum_list vs)"
      using ih by (simp add: unat_word_ariths)
    then show ?thesis using v ih by simp
  qed
qed

lemma aliveNeighbors_sum:
  "aliveNeighbors grid buf c =
     sum_list (map (\<lambda>k. cellState grid buf (fst k) (snd k)) (neighborCells c))"
  by (simp add: aliveNeighbors_def neighborCells_def Let_def add.assoc)

lemma aliveNeighbors_count:
  assumes "\<forall>v\<in>set buf. v = 0 \<or> v = 1"
  shows "unat (aliveNeighbors grid buf c) = liveLookups grid buf c"
proof -
  let ?vs = "map (\<lambda>k. cellState grid buf (fst k) (snd k)) (neighborCells c)"
  have "\<forall>v\<in>set ?vs. v = 0 \<or> v = 1"
    using assms by (auto simp: cellState_def load_def)
  moreover have "length ?vs < 2 ^ 32" by (simp add: neighborCells_def Let_def)
  ultimately have "unat (sum_list ?vs) = length (filter (\<lambda>v. v = 1) ?vs)"
    by (rule sum_bits)
  then show ?thesis
    by (simp add: aliveNeighbors_sum liveLookups_def filter_map comp_def)
qed

lemma unat_cellIndex:
  assumes "0 < unat (fst grid)" "0 < unat (snd grid)" "unat (fst grid) * unat (snd grid) < 2 ^ 32"
  shows "unat (cellIndex grid c) =
         (unat (snd c) mod unat (snd grid)) * unat (fst grid) + unat (fst c) mod unat (fst grid)"
proof -
  let ?w = "unat (fst grid)" and ?h = "unat (snd grid)"
  let ?x = "unat (fst c) mod ?w" and ?y = "unat (snd c) mod ?h"
  have nz: "fst grid \<noteq> 0" "snd grid \<noteq> 0" using assms by (auto simp: unat_gt_0)
  have "?y * ?w + ?x < ?h * ?w"
  proof -
    have "?y + 1 \<le> ?h" using assms(2) by (simp add: Suc_leI)
    then have "(?y + 1) * ?w \<le> ?h * ?w" by (rule mult_le_mono1)
    moreover have "?x < ?w" using assms(1) by simp
    ultimately show ?thesis by simp
  qed
  then have lt: "?y * ?w + ?x < 2 ^ 32" using assms(3) by (simp add: mult.commute)
  then have lt2: "?y * ?w < 2 ^ 32" by simp
  have m: "unat (snd c mod snd grid * fst grid) = ?y * ?w"
    using lt2 by (simp add: unat_mod unat_mult_lem [THEN iffD1])
  have "unat (snd c mod snd grid * fst grid + fst c mod fst grid) = ?y * ?w + ?x"
    using lt m by (simp add: unat_mod unat_add_lem [THEN iffD1])
  then show ?thesis
    using nz by (simp add: cellIndex_def rem_u32_def)
qed

lemma cellIndex_in_range:
  assumes "0 < unat (fst grid)" "0 < unat (snd grid)" "unat (fst grid) * unat (snd grid) < 2 ^ 32"
  shows "unat (cellIndex grid c) < unat (fst grid) * unat (snd grid)"
proof -
  let ?w = "unat (fst grid)" and ?h = "unat (snd grid)"
  let ?x = "unat (fst c) mod ?w" and ?y = "unat (snd c) mod ?h"
  have "?y + 1 \<le> ?h" using assms(2) by (simp add: Suc_leI)
  then have "(?y + 1) * ?w \<le> ?h * ?w" by (rule mult_le_mono1)
  moreover have "?x < ?w" using assms(1) by simp
  ultimately have "?y * ?w + ?x < ?w * ?h" by (simp add: mult.commute)
  then show ?thesis using unat_cellIndex [OF assms] by simp
qed

lemma load_store_same: "i < length buf \<Longrightarrow> load (store buf i v) i = v"
  by (simp add: load_def store_def)

text \<open>Cells stay 0 or 1: the seed has only these values and an invocation writes only these.\<close>

lemma simulate_bits:
  assumes "\<forall>v\<in>set cellStateIn. v = 0 \<or> v = 1" "\<forall>v\<in>set cellStateOut. v = 0 \<or> v = 1"
  shows "\<forall>v\<in>set (simulate grid cellStateIn cellStateOut c). v = 0 \<or> v = 1"
proof -
  have upd: "\<forall>v\<in>set (store cellStateOut i b). v = 0 \<or> v = 1" if "b = 0 \<or> b = 1" for i b
    using assms(2) that set_update_subset_insert [of cellStateOut i b]
    by (auto simp: store_def)
  have cur: "load cellStateIn i = 0 \<or> load cellStateIn i = 1" for i
    using assms(1) by (rule load_bit)
  have "\<forall>v\<in>set (store cellStateOut i 1). v = 0 \<or> v = 1"
    "\<forall>v\<in>set (store cellStateOut i 0). v = 0 \<or> v = 1"
    "\<forall>v\<in>set (store cellStateOut i (load cellStateIn i)). v = 0 \<or> v = 1" for i
    using upd [of 1 i] upd [of 0 i] upd [OF cur [of i], of i] by simp_all
  then show ?thesis
    unfolding simulate_def Let_def by simp
qed

lemma setupGame_bits:
  "\<forall>b\<in>set (cell_storage_buffer (setupGame gs disco sim random)). \<forall>v\<in>set b. v = 0 \<or> v = 1"
  by (auto simp: setupGame_def Let_def)

text \<open>
  The rule table on the lookups of the code: on a grid whose cells are 0 (dead) or 1
  (alive), one invocation writes to its cell 1 exactly when the cell was dead with 3 live
  lookups or alive with 2 or 3, and 0 in every other case.
\<close>

lemma simulate_life_rule:
  assumes bits: "\<forall>v\<in>set cellStateIn. v = 0 \<or> v = 1"
    and w: "0 < unat (fst grid)" and h: "0 < unat (snd grid)"
    and len: "length cellStateIn = unat (fst grid) * unat (snd grid)"
    and out: "length cellStateOut = length cellStateIn"
    and small: "length cellStateIn < 2 ^ 32"
  shows "load (simulate grid cellStateIn cellStateOut c) (unat (cellIndex grid c)) =
           (if life_rule (load cellStateIn (unat (cellIndex grid c)) = 1)
                 (liveLookups grid cellStateIn c)
            then 1 else 0)"
proof -
  let ?i = "unat (cellIndex grid c)"
  let ?n = "aliveNeighbors grid cellStateIn c"
  have i: "?i < length cellStateOut"
    using cellIndex_in_range [OF w h, of c] small len out by simp
  have cnt: "unat ?n = liveLookups grid cellStateIn c"
    using bits by (rule aliveNeighbors_count)
  have n2: "?n = 2 \<longleftrightarrow> liveLookups grid cellStateIn c = 2"
    by (simp add: word_unat_eq_iff cnt)
  have n3: "?n = 3 \<longleftrightarrow> liveLookups grid cellStateIn c = 3"
    by (simp add: word_unat_eq_iff cnt)
  have cur: "load cellStateIn ?i = 0 \<or> load cellStateIn ?i = 1"
    using bits by (rule load_bit)
  show ?thesis
    using cur i n2 n3
    by (auto simp: simulate_def Let_def load_store_same life_rule_def)
qed

section \<open>Bind group selection\<close>

lemma rem_nonneg_floor: "0 \<le> a \<Longrightarrow> 0 < b \<Longrightarrow> rem a b = a - b * of_int \<lfloor>a / b\<rfloor>"
  by (simp add: rem_def trunc_def)

lemma bindGroupIndex_parity:
  assumes "0 \<le> s"
  shows "bindGroupIndex s = \<lfloor>s\<rfloor> mod 2"
proof -
  have "\<lfloor>s / 2\<rfloor> = \<lfloor>s\<rfloor> div 2"
    using floor_divide_real_eq_div [of 2 s] by simp
  then have "rem s 2 = s - of_int (2 * (\<lfloor>s\<rfloor> div 2))"
    using assms by (simp add: rem_nonneg_floor)
  then have "\<lfloor>rem s 2\<rfloor> = \<lfloor>s\<rfloor> - 2 * (\<lfloor>s\<rfloor> div 2)"
    by (simp only: floor_diff_of_int)
  then show ?thesis
    by (simp add: bindGroupIndex_def minus_mult_div_eq_mod)
qed

text \<open>
  Claim C5. For every nonnegative step, the index \<open>floor (step % 2)\<close> that selects the
  bind group equals \<open>floor step mod 2\<close>; parity 0 selects the group that reads buffer 0
  and writes buffer 1, parity 1 the group that reads buffer 1 and writes buffer 0.
\<close>

theorem bindGroup_parity:
  assumes "0 \<le> s"
  shows "bindGroupIndex s = \<lfloor>s\<rfloor> mod 2 \<and>
         selectBindGroup s =
           Some (if \<lfloor>s\<rfloor> mod 2 = 0 then \<lparr>binding2 = 0, binding3 = 1\<rparr>
                 else \<lparr>binding2 = 1, binding3 = 0\<rparr>)"
proof -
  have i: "bindGroupIndex s = \<lfloor>s\<rfloor> mod 2" using assms by (rule bindGroupIndex_parity)
  have "\<lfloor>s\<rfloor> mod 2 = 0 \<or> \<lfloor>s\<rfloor> mod 2 = 1" by presburger
  then show ?thesis
    using i by (auto simp: selectBindGroup_def bindGroups_def Let_def)
qed

theorem bindGroup_parity_witness:
  "(0::real) \<le> 7 / 2 \<and> bindGroupIndex (7 / 2) = 1 \<and>
   selectBindGroup (7 / 2) = Some \<lparr>binding2 = 1, binding3 = 0\<rparr>"
proof -
  have h: "(0::real) \<le> 7 / 2" by simp
  have f: "\<lfloor>7 / 2 :: real\<rfloor> = 3" by simp
  show ?thesis using bindGroup_parity [OF h] by (simp add: f)
qed

section \<open>Corner colours\<close>

lemma hueToRgb_bounds:
  assumes "- 13 / 12 \<le> t"
  shows "0 \<le> hueToRgb (1 / 4) (3 / 4) t \<and> hueToRgb (1 / 4) (3 / 4) t \<le> 3 / 4"
  using assms by (auto simp: hueToRgb_def Let_def)

lemma hslToRgb_half:
  "hslToRgb h (1 / 2) (1 / 2) =
     (hueToRgb (1 / 4) (3 / 4) (h + 1 / 3), hueToRgb (1 / 4) (3 / 4) h,
      hueToRgb (1 / 4) (3 / 4) (h - 1 / 3))"
  by (simp add: hslToRgb_def Let_def)

lemma hslToRgb_bounds:
  assumes "- 3 / 4 \<le> h"
  shows "0 \<le> fst (hslToRgb h (1 / 2) (1 / 2)) \<and> fst (hslToRgb h (1 / 2) (1 / 2)) \<le> 1 \<and>
         0 \<le> fst (snd (hslToRgb h (1 / 2) (1 / 2))) \<and> fst (snd (hslToRgb h (1 / 2) (1 / 2))) \<le> 1 \<and>
         0 \<le> snd (snd (hslToRgb h (1 / 2) (1 / 2))) \<and> snd (snd (hslToRgb h (1 / 2) (1 / 2))) \<le> 1"
proof -
  have a: "- 13 / 12 \<le> h + 1 / 3" "- 13 / 12 \<le> h" "- 13 / 12 \<le> h - 1 / 3"
    using assms by simp_all
  show ?thesis
    using hueToRgb_bounds [OF a(1)] hueToRgb_bounds [OF a(2)] hueToRgb_bounds [OF a(3)]
    by (simp add: hslToRgb_half)
qed

lemma rem_nonneg:
  assumes "0 \<le> a" "0 < b"
  shows "0 \<le> rem a b"
proof -
  have "of_int \<lfloor>a / b\<rfloor> \<le> a / b" by (rule of_int_floor_le)
  then have "b * of_int \<lfloor>a / b\<rfloor> \<le> b * (a / b)"
    using assms(2) by (simp only: mult_le_cancel_left_pos)
  also have "b * (a / b) = a" using assms(2) by simp
  finally show ?thesis
    using assms by (simp add: rem_nonneg_floor)
qed

lemma gradientOffset_nonneg:
  assumes "0 \<le> tm" "0 < disco"
  shows "0 \<le> gradientOffset tm disco"
proof -
  have "0 < 1 / disco" using assms(2) by simp
  then have "0 \<le> rem tm (1 / disco)" using assms(1) by (intro rem_nonneg)
  then show ?thesis
    using assms(2) unfolding gradientOffset_def by (intro mult_nonneg_nonneg) simp_all
qed

text \<open>
  Claim C6, amended. For every positive disco speed and every time that is nonnegative, or
  whose gradient offset is at least \<open>-19/20\<close>, the red, green and blue channels of the
  four corner colours lie in \<open>[0, 1]\<close> and the alpha channel is 1.
\<close>

theorem cornerColors_in_range:
  assumes "0 < disco" and "0 \<le> tm \<or> - 19 / 20 \<le> gradientOffset tm disco"
  shows "channelsOk (colorsAt (cornerColors (gradientOffset tm disco)) 0) \<and>
         channelsOk (colorsAt (cornerColors (gradientOffset tm disco)) 1) \<and>
         channelsOk (colorsAt (cornerColors (gradientOffset tm disco)) 2) \<and>
         channelsOk (colorsAt (cornerColors (gradientOffset tm disco)) 3)"
proof -
  let ?o = "gradientOffset tm disco"
  have o: "- 19 / 20 \<le> ?o"
    using assms gradientOffset_nonneg [of tm disco] by auto
  have h: "- 3 / 4 \<le> ?o + 1 / 5" "- 3 / 4 \<le> ?o + 2 / 5" "- 3 / 4 \<le> ?o + 3 / 5"
    "- 3 / 4 \<le> ?o + 4 / 5"
    using o by simp_all
  show ?thesis
    using hslToRgb_bounds [OF h(1)] hslToRgb_bounds [OF h(2)] hslToRgb_bounds [OF h(3)]
      hslToRgb_bounds [OF h(4)]
    by (simp add: channelsOk_def colorsAt_def cornerColors_def Let_def)
qed

lemma offset_example: "gradientOffset (9 / 5) (1 / 2) = 9 / 10"
  by (simp add: gradientOffset_def rem_def trunc_def)

theorem cornerColors_in_range_witness:
  "channelsOk (colorsAt (cornerColors (9 / 10)) 3)"
proof -
  have d: "(0::real) < 1 / 2" by simp
  have t: "(0::real) \<le> 9 / 5 \<or> - 19 / 20 \<le> gradientOffset (9 / 5) (1 / 2)" by simp
  show ?thesis using cornerColors_in_range [OF d t] by (simp add: offset_example)
qed

text \<open>
  Claim C6 as stated fails for a negative time: at time \<open>-39/40\<close> and disco speed 1 the
  offset is \<open>-39/40\<close> and the blue channel of the first corner colour is \<open>-3/40\<close>.
\<close>

theorem negative_time_counterexample:
  "gradientOffset (- 39 / 40) 1 = - 39 / 40 \<and>
   snd (snd (hslToRgb (gradientOffset (- 39 / 40) 1 + 0.2) 0.5 0.5)) = - 3 / 40 \<and>
   \<not> channelsOk (colorsAt (cornerColors (gradientOffset (- 39 / 40) 1)) 0)"
proof -
  have c: "\<lceil>- 39 / 40 :: real\<rceil> = 0" by (simp add: ceiling_eq_iff)
  have o: "gradientOffset (- (39 / 40)) 1 = - (39 / 40)"
    using c by (simp add: gradientOffset_def rem_def trunc_def)
  have b: "snd (snd (hslToRgb (- (31 / 40)) (1 / 2) (1 / 2))) = - (3 / 40)"
    by (simp add: hslToRgb_def hueToRgb_def Let_def)
  show ?thesis
    by (simp add: o b channelsOk_def colorsAt_def cornerColors_def Let_def)
qed

section \<open>The clock and the fragment shader\<close>

lemma setupGame_fields:
  "time (setupGame gs disco sim random) = 0" "step (setupGame gs disco sim random) = 0"
  "sim_speed (setupGame gs disco sim random) = sim"
  "disco_speed (setupGame gs disco sim random) = disco"
  "grid_size (setupGame gs disco sim random) = gs"
  by (simp_all add: setupGame_def Let_def)

lemma tick_fields:
  "time (tick g) = time g + 1 / 60" "step (tick g) = step g + sim_speed g / 60"
  "sim_speed (tick g) = sim_speed g" "disco_speed (tick g) = disco_speed g"
  "grid_size (tick g) = grid_size g"
  by (simp_all add: tick_def Let_def)

lemma render_fields:
  "time (fst (render g)) = time g" "step (fst (render g)) = step g"
  "sim_speed (fst (render g)) = sim_speed g" "disco_speed (fst (render g)) = disco_speed g"
  "grid_size (fst (render g)) = grid_size g"
  by (simp_all add: render_def Let_def split: option.splits prod.splits)

lemma run_sim_speed: "sim_speed (run cs g) = sim_speed g"
proof (induction cs arbitrary: g)
  case Nil
  show ?case by simp
next
  case (Cons c cs)
  show ?case by (cases c) (simp_all add: Cons.IH tick_fields render_fields)
qed

lemma run_time_mono: "time g \<le> time (run cs g)"
proof (induction cs arbitrary: g)
  case Nil
  show ?case by simp
next
  case (Cons c cs)
  show ?case
  proof (cases c)
    case Tick
    have "time g \<le> time (tick g)" by (simp add: tick_fields)
    also have "\<dots> \<le> time (run cs (tick g))" by (rule Cons.IH)
    finally show ?thesis using Tick by simp
  next
    case Render
    have "time (fst (render g)) \<le> time (run cs (fst (render g)))" by (rule Cons.IH)
    then show ?thesis using Render by (simp add: render_fields)
  qed
qed

lemma run_step_mono: "0 \<le> sim_speed g \<Longrightarrow> step g \<le> step (run cs g)"
proof (induction cs arbitrary: g)
  case Nil
  show ?case by simp
next
  case (Cons c cs)
  show ?case
  proof (cases c)
    case Tick
    have "step g \<le> step (tick g)" using Cons.prems by (simp add: tick_fields)
    also have "\<dots> \<le> step (run cs (tick g))"
      using Cons.prems by (intro Cons.IH) (simp add: tick_fields)
    finally show ?thesis using Tick by simp
  next
    case Render
    have "step (fst (render g)) \<le> step (run cs (fst (render g)))"
      using Cons.prems by (intro Cons.IH) (simp add: render_fields)
    then show ?thesis using Render by (simp add: render_fields)
  qed
qed

text \<open>
  Claim C10, amended. \<open>tick\<close> changes the two clock fields and nothing else: the time
  grows by \<open>1/60\<close> and the step by \<open>sim_speed/60\<close>. \<open>render\<close> changes neither.
  Over any sequence of calls the time never decreases, and the step never decreases when
  the simulation speed is nonnegative.
\<close>

theorem clock_frame:
  "tick g = g\<lparr>time := time g + 1 / 60, step := step g + sim_speed g / 60\<rparr> \<and>
   time (fst (render g)) = time g \<and> step (fst (render g)) = step g \<and>
   time g \<le> time (run cs g) \<and>
   (0 \<le> sim_speed g \<longrightarrow> step g \<le> step (run cs g))"
  using run_time_mono [of g cs] run_step_mono [of g cs]
  by (simp add: render_fields) (simp add: tick_def Let_def)

theorem clock_frame_witness:
  "(0::real) \<le> sim_speed (setupGame 8 (1 / 2) 60 (\<lambda>i. 0)) \<and>
   step (setupGame 8 (1 / 2) 60 (\<lambda>i. 0))
     \<le> step (run [Tick, Render, Tick] (setupGame 8 (1 / 2) 60 (\<lambda>i. 0)))"
proof -
  have h: "(0::real) \<le> sim_speed (setupGame 8 (1 / 2) 60 (\<lambda>i. 0))"
    by (simp add: setupGame_fields)
  show ?thesis
    using h clock_frame [of "setupGame 8 (1 / 2) 60 (\<lambda>i. 0)" "[Tick, Render, Tick]"]
    by blast
qed

text \<open>
  Claim C10 as stated fails for a negative simulation speed: with speed \<open>-60\<close> one tick
  takes the step from 0 to \<open>-1\<close>.
\<close>

theorem step_decreases_counterexample:
  "step (run [Tick] (setupGame 8 (1 / 2) (- 60) (\<lambda>i. 0))) = - 1 \<and>
   step (setupGame 8 (1 / 2) (- 60) (\<lambda>i. 0)) = 0"
  by (simp add: setupGame_fields tick_fields)

text \<open>
  Claim C7 at the state the default game reaches after 108 ticks: the time is \<open>9/5\<close>, the
  fourth hue is \<open>17/10\<close>, and its red channel is \<open>1/4\<close>, where the hue \<open>7/10\<close> (the
  same hue taken mod 1) has the red channel \<open>7/20\<close>.
\<close>

theorem hue_not_periodic:
  "time (run (replicate 108 Tick) (setupGame 256 (1 / 2) 60 (\<lambda>i. 0))) = 9 / 5 \<and>
   gradientOffset (9 / 5) (1 / 2) + 0.8 = 17 / 10 \<and>
   frac (17 / 10 :: real) = 7 / 10 \<and>
   fst (hslToRgb (17 / 10) 0.5 0.5) = 1 / 4 \<and>
   fst (hslToRgb (7 / 10) 0.5 0.5) = 7 / 20"
proof -
  have run_ticks: "time (run (replicate n Tick) g) = time g + real n / 60" for n and g :: GameOfLife
    by (induction n arbitrary: g) (simp_all add: tick_fields add_divide_distrib)
  have t: "time (run (replicate 108 Tick) (setupGame 256 (1 / 2) 60 (\<lambda>i. 0))) = 9 / 5"
    by (simp add: run_ticks setupGame_fields)
  have f: "frac (17 / 10 :: real) = 7 / 10"
    by (simp add: frac_def)
  have a: "fst (hslToRgb (17 / 10) 0.5 0.5) = 1 / 4"
    by (simp add: hslToRgb_def hueToRgb_def Let_def)
  have b: "fst (hslToRgb (7 / 10) 0.5 0.5) = 7 / 20"
    by (simp add: hslToRgb_def hueToRgb_def Let_def)
  show ?thesis using t f a b by (simp add: offset_example)
qed

text \<open>
  Claim C9. The fragment colour of the cell at \<open>(x, y)\<close> is the bilinear interpolation of
  the four corner colours: both pairs are interpolated by \<open>x / width\<close>, and the two
  results by \<open>y / height\<close>.
\<close>

theorem fragmentMain_bilinear:
  "fragmentMain (width, height) colors (x, y) =
     lerp4 (lerp4 (colors 0) (colors 1) (x / width))
           (lerp4 (colors 2) (colors 3) (x / width)) (y / height)"
proof -
  obtain r0 g0 b0 a0 where c0: "colors 0 = (r0, g0, b0, a0)" by (cases "colors 0") 
  obtain r1 g1 b1 a1 where c1: "colors (Suc 0) = (r1, g1, b1, a1)" by (cases "colors (Suc 0)") 
  obtain r2 g2 b2 a2 where c2: "colors 2 = (r2, g2, b2, a2)" by (cases "colors 2") 
  obtain r3 g3 b3 a3 where c3: "colors 3 = (r3, g3, b3, a3)" by (cases "colors 3") 
  have l: "a * (1 - f) + b * f = lerp a b f" for a b f :: real
    by (simp add: lerp_def algebra_simps)
  show ?thesis
    by (simp add: fragmentMain_def Let_def c0 c1 c2 c3 scale4_def add4_def lerp4_def l)
qed

section \<open>The compute pass\<close>

lemma simulate_length: "length (simulate grid inb outb c) = length outb"
  by (simp add: simulate_def store_def Let_def)

lemma simulate_other:
  "j \<noteq> unat (cellIndex grid c) \<Longrightarrow> simulate grid inb outb c ! j = outb ! j"
  by (simp add: simulate_def store_def Let_def)

lemma simulate_same:
  assumes "unat (cellIndex grid c) < length outb" "unat (cellIndex grid c) < length outb'"
  shows "simulate grid inb outb c ! unat (cellIndex grid c) =
         simulate grid inb outb' c ! unat (cellIndex grid c)"
  using assms by (simp add: simulate_def store_def Let_def)

lemma invoke_length: "length (invoke grid bg c bufs) = length bufs"
  by (simp add: invoke_def)

lemma invoke_other: "k \<noteq> binding3 bg \<Longrightarrow> invoke grid bg c bufs ! k = bufs ! k"
  by (simp add: invoke_def)

lemma invoke_out:
  "binding3 bg < length bufs \<Longrightarrow>
   invoke grid bg c bufs ! binding3 bg =
     simulate grid (bufs ! binding2 bg) (bufs ! binding3 bg) (of_nat (fst c), of_nat (snd c))"
  by (simp add: invoke_def)

lemma fold_invoke_length: "length (fold (invoke grid bg) cs bufs) = length bufs"
  by (induction cs arbitrary: bufs) (simp_all add: invoke_length)

lemma fold_invoke_other:
  "k \<noteq> binding3 bg \<Longrightarrow> fold (invoke grid bg) cs bufs ! k = bufs ! k"
  by (induction cs arbitrary: bufs) (simp_all add: invoke_other)

lemma fold_invoke_out_length:
  "binding3 bg < length bufs \<Longrightarrow>
   length (fold (invoke grid bg) cs bufs ! binding3 bg) = length (bufs ! binding3 bg)"
proof (induction cs arbitrary: bufs)
  case Nil
  show ?case by simp
next
  case (Cons c cs)
  have "length (fold (invoke grid bg) cs (invoke grid bg c bufs) ! binding3 bg) =
        length (invoke grid bg c bufs ! binding3 bg)"
    using Cons.prems by (intro Cons.IH) (simp add: invoke_length)
  then show ?case using Cons.prems by (simp add: invoke_out simulate_length)
qed

lemma fold_invoke_unwritten:
  assumes "binding2 bg \<noteq> binding3 bg" "binding3 bg < length bufs"
    and "\<forall>c\<in>set cs. unat (cellIndex grid (of_nat (fst c), of_nat (snd c))) \<noteq> j"
  shows "fold (invoke grid bg) cs bufs ! binding3 bg ! j = bufs ! binding3 bg ! j"
  using assms
proof (induction cs arbitrary: bufs)
  case Nil
  show ?case by simp
next
  case (Cons c cs)
  let ?b = "invoke grid bg c bufs"
  have "fold (invoke grid bg) cs ?b ! binding3 bg ! j = ?b ! binding3 bg ! j"
    using Cons.prems by (intro Cons.IH) (simp_all add: invoke_length)
  also have "\<dots> = bufs ! binding3 bg ! j"
    using Cons.prems by (simp add: invoke_out simulate_other)
  finally show ?case by simp
qed

lemma fold_invoke_written:
  assumes ne: "binding2 bg \<noteq> binding3 bg" and o: "binding3 bg < length bufs"
    and inj: "inj_on (\<lambda>c. unat (cellIndex grid (of_nat (fst c), of_nat (snd c)))) (set cs)"
    and rng: "\<forall>c\<in>set cs. unat (cellIndex grid (of_nat (fst c), of_nat (snd c)))
                < length (bufs ! binding3 bg)"
    and c: "c \<in> set cs"
  shows "fold (invoke grid bg) cs bufs ! binding3 bg
           ! unat (cellIndex grid (of_nat (fst c), of_nat (snd c))) =
         simulate grid (bufs ! binding2 bg) (bufs ! binding3 bg) (of_nat (fst c), of_nat (snd c))
           ! unat (cellIndex grid (of_nat (fst c), of_nat (snd c)))"
  using inj rng c
proof (induction cs rule: rev_induct)
  case Nil
  then show ?case by simp
next
  case (snoc d ds)
  let ?idx = "\<lambda>c. unat (cellIndex grid (of_nat (fst c), of_nat (snd c)))"
  let ?w = "\<lambda>c :: nat \<times> nat. (of_nat (fst c), of_nat (snd c)) :: vec2u"
  let ?b = "fold (invoke grid bg) ds bufs"
  have len: "length ?b = length bufs" by (rule fold_invoke_length)
  have inb: "?b ! binding2 bg = bufs ! binding2 bg"
    using ne by (rule fold_invoke_other)
  have outlen: "length (?b ! binding3 bg) = length (bufs ! binding3 bg)"
    using o by (rule fold_invoke_out_length)
  have step: "fold (invoke grid bg) (ds @ [d]) bufs ! binding3 bg =
              simulate grid (bufs ! binding2 bg) (?b ! binding3 bg) (?w d)"
    using o len by (simp add: invoke_out inb)
  show ?case
  proof (cases "?idx c = ?idx d")
    case True
    have "?idx d < length (bufs ! binding3 bg)" using snoc.prems(2) by simp
    then have "simulate grid (bufs ! binding2 bg) (?b ! binding3 bg) (?w d) ! ?idx d =
          simulate grid (bufs ! binding2 bg) (bufs ! binding3 bg) (?w d) ! ?idx d"
      using outlen by (intro simulate_same) simp_all
    moreover have "c = d"
      using snoc.prems(1) True snoc.prems(3) by (rule inj_onD) simp
    ultimately show ?thesis using step by simp
  next
    case False
    then have "c \<in> set ds" using snoc.prems(3) by auto
    moreover have "inj_on ?idx (set ds)"
      using snoc.prems(1) by (auto intro: inj_on_subset)
    moreover have "\<forall>c\<in>set ds. ?idx c < length (bufs ! binding3 bg)"
      using snoc.prems(2) by simp
    ultimately have "?b ! binding3 bg ! ?idx c =
        simulate grid (bufs ! binding2 bg) (bufs ! binding3 bg) (?w c) ! ?idx c"
      by (intro snoc.IH)
    moreover have "simulate grid (bufs ! binding2 bg) (?b ! binding3 bg) (?w d) ! ?idx c =
          ?b ! binding3 bg ! ?idx c"
      using False by (intro simulate_other) simp
    ultimately show ?thesis using step by simp
  qed
qed

lemma set_invocations: "set (invocations nx ny) = {(x, y). x < 8 * nx \<and> y < 8 * ny}"
  by (auto simp: invocations_def)

lemma unat_gridU32: "gs < 2 ^ 32 \<Longrightarrow> unat (fst (gridU32 gs)) = gs \<and> unat (snd (gridU32 gs)) = gs"
  by (simp add: gridU32_def unat_of_nat)

lemma grid_index:
  assumes gs: "0 < gs" "gs * gs < 2 ^ 32" and x: "x < gs" and y: "y < gs"
  shows "unat (cellIndex (gridU32 gs) (of_nat x, of_nat y)) = y * gs + x"
proof -
  have "gs \<le> gs * gs" using gs(1) by simp
  then have lt: "gs < 2 ^ 32" using gs(2) by (rule le_less_trans)
  have u: "unat (fst (gridU32 gs)) = gs" "unat (snd (gridU32 gs)) = gs"
    using unat_gridU32 [OF lt] by simp_all
  have xy: "unat (of_nat x :: u32) = x" "unat (of_nat y :: u32) = y"
    using x y lt by (simp_all add: unat_of_nat)
  have "unat (cellIndex (gridU32 gs) (of_nat x, of_nat y)) =
        unat (snd (of_nat x :: u32, of_nat y :: u32)) mod unat (snd (gridU32 gs)) * unat (fst (gridU32 gs)) +
        unat (fst (of_nat x :: u32, of_nat y :: u32)) mod unat (fst (gridU32 gs))"
    using gs by (intro unat_cellIndex) (simp_all add: u)
  then show ?thesis using x y by (simp add: u xy)
qed

lemma grid_index_inj:
  assumes gs: "0 < gs" "gs * gs < 2 ^ 32"
  shows "inj_on (\<lambda>c. unat (cellIndex (gridU32 gs) (of_nat (fst c), of_nat (snd c))))
           {(x, y). x < gs \<and> y < gs}"
proof (rule inj_onI)
  fix c d :: "nat \<times> nat"
  assume c: "c \<in> {(x, y). x < gs \<and> y < gs}" and d: "d \<in> {(x, y). x < gs \<and> y < gs}"
    and eq: "unat (cellIndex (gridU32 gs) (of_nat (fst c), of_nat (snd c))) =
             unat (cellIndex (gridU32 gs) (of_nat (fst d), of_nat (snd d)))"
  have cb: "fst c < gs" "snd c < gs" and db: "fst d < gs" "snd d < gs"
    using c d by auto
  have e: "snd c * gs + fst c = snd d * gs + fst d"
    using eq grid_index [OF gs cb] grid_index [OF gs db] by simp
  have "(snd c * gs + fst c) mod gs = (snd d * gs + fst d) mod gs" using e by simp
  then have f: "fst c = fst d" using cb db by simp
  have "(snd c * gs + fst c) div gs = (snd d * gs + fst d) div gs" using e by simp
  then have "snd c = snd d" using cb db by simp
  then show "c = d" using f by (simp add: prod_eq_iff)
qed

lemma GPUSize32_nat: "n < 2 ^ 32 \<Longrightarrow> GPUSize32 (real n) = Some n"
  by (simp add: GPUSize32_def trunc_def Let_def)

lemma GPUSize32_eighth: "gs < 2 ^ 32 \<Longrightarrow> GPUSize32 (real gs / 8) = Some (gs div 8)"
proof -
  assume lt: "gs < 2 ^ 32"
  have "\<lfloor>real gs / real 8\<rfloor> = int (gs div 8)" by (rule floor_divide_of_nat_eq)
  then have t: "trunc (real gs / 8) = int (gs div 8)" by (simp add: trunc_def)
  have "gs div 8 \<le> gs" by simp
  then have "gs div 8 < 2 ^ 32" using lt by (rule le_less_trans)
  then show ?thesis by (simp add: GPUSize32_def t)
qed

lemma selectBindGroup_cases:
  assumes "selectBindGroup s = Some bg"
  shows "bg = \<lparr>binding2 = 0, binding3 = 1\<rparr> \<or> bg = \<lparr>binding2 = 1, binding3 = 0\<rparr>"
proof -
  have "bg \<in> set bindGroups"
    using assms by (auto simp: selectBindGroup_def Let_def split: if_splits)
  then show ?thesis by (simp add: bindGroups_def)
qed

lemma render_buffers:
  "cell_storage_buffer (fst (render g)) = cell_storage_buffer g \<or>
   (\<exists>bg nx ny. selectBindGroup (step g) = Some bg \<and>
      cell_storage_buffer (fst (render g)) =
        computePass (gridU32 (grid_size g)) bg nx ny (cell_storage_buffer g))"
  by (auto simp: render_def Let_def split: option.splits prod.splits)

lemma render_dispatch:
  assumes "selectBindGroup (step g) = Some bg" "grid_size g * grid_size g * 2 < 2 ^ 32"
  shows "cell_storage_buffer (fst (render g)) =
         computePass (gridU32 (grid_size g)) bg (grid_size g div 8) (grid_size g div 8)
           (cell_storage_buffer g)"
proof -
  let ?gs = "grid_size g"
  have "?gs \<le> ?gs * ?gs * 2" by (cases "?gs") simp_all
  then have lt: "?gs < 2 ^ 32" using assms(2) by (rule le_less_trans)
  have d: "GPUSize32 (real ?gs * real ?gs * 2) = Some (?gs * ?gs * 2)"
    using GPUSize32_nat [OF assms(2)] by simp
  have one: "GPUSize32 1 = Some 1" "GPUSize32 6 = Some 6"
    using GPUSize32_nat [of 1] GPUSize32_nat [of 6] by simp_all
  show ?thesis
    using assms(1)
    by (simp add: render_def Let_def drawCall_def dispatchCall_def d one GPUSize32_eighth [OF lt])
qed

text \<open>
  Isolation of the update. Whichever bind group a tick selects, the buffer the update
  reads and the buffer it writes are distinct, the buffer it reads is unchanged after
  \<open>render\<close>, and so is every buffer other than the one it writes. When the grid side is
  a positive multiple of 8, twice its square is below \<open>2^32\<close> (so that the draw call's
  instance count is accepted) and the written buffer has one entry per cell, every cell of
  the written buffer holds what the invocation of that cell computes from the buffer read.
\<close>

theorem update_isolation:
  assumes bg: "selectBindGroup (step g) = Some bg"
    and two: "length (cell_storage_buffer g) = 2"
  shows "binding2 bg \<noteq> binding3 bg \<and>
         cell_storage_buffer (fst (render g)) ! binding2 bg = cell_storage_buffer g ! binding2 bg \<and>
         (\<forall>k. k \<noteq> binding3 bg \<longrightarrow>
            cell_storage_buffer (fst (render g)) ! k = cell_storage_buffer g ! k) \<and>
         (8 dvd grid_size g \<and> 0 < grid_size g \<and> grid_size g * grid_size g * 2 < 2 ^ 32 \<and>
          length (cell_storage_buffer g ! binding3 bg) = grid_size g * grid_size g \<longrightarrow>
          (\<forall>x<grid_size g. \<forall>y<grid_size g.
             cell_storage_buffer (fst (render g)) ! binding3 bg ! (y * grid_size g + x) =
             simulate (gridU32 (grid_size g)) (cell_storage_buffer g ! binding2 bg)
               (cell_storage_buffer g ! binding3 bg) (of_nat x, of_nat y) ! (y * grid_size g + x)))"
proof -
  let ?gs = "grid_size g" and ?bufs = "cell_storage_buffer g"
  let ?bufs' = "cell_storage_buffer (fst (render g))"
  have cases: "bg = \<lparr>binding2 = 0, binding3 = 1\<rparr> \<or> bg = \<lparr>binding2 = 1, binding3 = 0\<rparr>"
    using bg by (rule selectBindGroup_cases)
  then have ne: "binding2 bg \<noteq> binding3 bg" and o: "binding3 bg < length ?bufs"
    using two by auto
  have frame: "?bufs' ! k = ?bufs ! k" if "k \<noteq> binding3 bg" for k
  proof -
    from render_buffers [of g] show ?thesis
    proof
      assume "?bufs' = ?bufs"
      then show ?thesis by simp
    next
      assume "\<exists>bg' nx ny. selectBindGroup (step g) = Some bg' \<and>
                ?bufs' = computePass (gridU32 ?gs) bg' nx ny ?bufs"
      then obtain nx ny where "?bufs' = computePass (gridU32 ?gs) bg nx ny ?bufs"
        using bg by auto
      then show ?thesis
        using that by (simp add: computePass_def fold_invoke_other)
    qed
  qed
  have full: "?bufs' ! binding3 bg ! (y * ?gs + x) =
              simulate (gridU32 ?gs) (?bufs ! binding2 bg) (?bufs ! binding3 bg)
                (of_nat x, of_nat y) ! (y * ?gs + x)"
    if d: "8 dvd ?gs" and pos: "0 < ?gs" and small: "?gs * ?gs * 2 < 2 ^ 32"
      and len: "length (?bufs ! binding3 bg) = ?gs * ?gs" and x: "x < ?gs" and y: "y < ?gs"
    for x y
  proof -
    let ?idx = "\<lambda>c. unat (cellIndex (gridU32 ?gs) (of_nat (fst c), of_nat (snd c)))"
    let ?cs = "invocations (?gs div 8) (?gs div 8)"
    have sq: "?gs * ?gs < 2 ^ 32" using small by simp
    have cs: "set ?cs = {(x, y). x < ?gs \<and> y < ?gs}"
      using d by (simp add: set_invocations)
    have inj: "inj_on ?idx (set ?cs)"
      unfolding cs using pos sq by (rule grid_index_inj)
    have "?gs \<le> ?gs * ?gs" using pos by simp
    then have lt: "?gs < 2 ^ 32" using sq by (rule le_less_trans)
    have u: "unat (fst (gridU32 ?gs)) = ?gs" "unat (snd (gridU32 ?gs)) = ?gs"
      using unat_gridU32 [OF lt] by simp_all
    have rng: "\<forall>c\<in>set ?cs. ?idx c < length (?bufs ! binding3 bg)"
    proof
      fix c assume "c \<in> set ?cs"
      have "?idx c < unat (fst (gridU32 ?gs)) * unat (snd (gridU32 ?gs))"
        using pos sq by (intro cellIndex_in_range) (simp_all add: u)
      then show "?idx c < length (?bufs ! binding3 bg)"
        using len by (simp add: u)
    qed
    have mem: "(x, y) \<in> set ?cs" using x y by (simp add: cs)
    have "fold (invoke (gridU32 ?gs) bg) ?cs ?bufs ! binding3 bg ! ?idx (x, y) =
          simulate (gridU32 ?gs) (?bufs ! binding2 bg) (?bufs ! binding3 bg)
            (of_nat (fst (x, y)), of_nat (snd (x, y))) ! ?idx (x, y)"
      using ne o inj rng mem by (rule fold_invoke_written)
    moreover have "?idx (x, y) = y * ?gs + x"
      using grid_index [OF pos sq x y] by simp
    moreover have "?bufs' = fold (invoke (gridU32 ?gs) bg) ?cs ?bufs"
      using render_dispatch [OF bg small] by (simp add: computePass_def)
    ultimately show ?thesis by simp
  qed
  show ?thesis
    using ne frame full by blast
qed

lemma setupGame_alive:
  "cell_storage_buffer (setupGame gs disco sim (\<lambda>i. 1)) =
     [replicate (gs * gs) 1, replicate (gs * gs) 1]"
  by (simp add: setupGame_def Let_def map_replicate_const)

lemma selectBindGroup_zero: "selectBindGroup 0 = Some \<lparr>binding2 = 0, binding3 = 1\<rparr>"
  by (simp add: selectBindGroup_def bindGroupIndex_def rem_def trunc_def bindGroups_def)

lemma crowded_cell_dies:
  "simulate (gridU32 8) (replicate 64 1) (replicate 64 1) (1, 1) ! 9 = 0"
  by (simp add: simulate_def aliveNeighbors_def cellState_def cellIndex_def rem_u32_def
      gridU32_def load_def store_def Let_def)

theorem update_isolation_witness:
  "cell_storage_buffer (fst (render (setupGame 8 (1 / 2) 60 (\<lambda>i. 1)))) ! 0 =
     cell_storage_buffer (setupGame 8 (1 / 2) 60 (\<lambda>i. 1)) ! 0 \<and>
   cell_storage_buffer (fst (render (setupGame 8 (1 / 2) 60 (\<lambda>i. 1)))) ! 1 ! 9 = 0"
proof -
  let ?g = "setupGame 8 (1 / 2) 60 (\<lambda>i. 1)"
  have bg: "selectBindGroup (step ?g) = Some \<lparr>binding2 = 0, binding3 = 1\<rparr>"
    by (simp add: setupGame_fields selectBindGroup_zero)
  have two: "length (cell_storage_buffer ?g) = 2"
    by (simp add: setupGame_alive)
  have inner: "8 dvd grid_size ?g \<and> 0 < grid_size ?g \<and> grid_size ?g * grid_size ?g * 2 < 2 ^ 32 \<and>
      length (cell_storage_buffer ?g ! binding3 \<lparr>binding2 = 0, binding3 = 1\<rparr>) =
        grid_size ?g * grid_size ?g"
    by (simp add: setupGame_fields setupGame_alive)
  have x: "(1::nat) < grid_size ?g" by (simp add: setupGame_fields)
  from update_isolation [OF bg two] inner x
  have "cell_storage_buffer (fst (render ?g)) ! 0 = cell_storage_buffer ?g ! 0 \<and>
        cell_storage_buffer (fst (render ?g)) ! 1 ! (1 * grid_size ?g + 1) =
        simulate (gridU32 (grid_size ?g)) (cell_storage_buffer ?g ! 0)
          (cell_storage_buffer ?g ! 1) (of_nat 1, of_nat 1) ! (1 * grid_size ?g + 1)"
    by (metis bindGroup.select_convs(1,2))
  then show ?thesis
    using crowded_cell_dies by (simp add: setupGame_fields setupGame_alive)
qed

text \<open>
  Claim C4 on a grid of side 4: the passes of \<open>render\<close> run, but the dispatch is of no
  workgroup, and the buffer to be written still holds 1 at cell \<open>(0, 0)\<close>, where the
  update of that cell gives 0: the update has not written a full buffer.
\<close>

theorem small_grid_not_written:
  "snd (render (setupGame 4 (1 / 2) 60 (\<lambda>i. 1))) \<and>
   selectBindGroup (step (setupGame 4 (1 / 2) 60 (\<lambda>i. 1))) = Some \<lparr>binding2 = 0, binding3 = 1\<rparr> \<and>
   cell_storage_buffer (fst (render (setupGame 4 (1 / 2) 60 (\<lambda>i. 1)))) ! 1 ! 0 = 1 \<and>
   simulate (gridU32 4) (cell_storage_buffer (setupGame 4 (1 / 2) 60 (\<lambda>i. 1)) ! 0)
     (cell_storage_buffer (setupGame 4 (1 / 2) 60 (\<lambda>i. 1)) ! 1) (0, 0) ! 0 = 0"
proof -
  let ?g = "setupGame 4 (1 / 2) 60 (\<lambda>i. 1)"
  have bg: "selectBindGroup (step ?g) = Some \<lparr>binding2 = 0, binding3 = 1\<rparr>"
    by (simp add: setupGame_fields selectBindGroup_zero)
  have n: "GPUSize32 (real 4 / 8) = Some (4 div 8)" by (rule GPUSize32_eighth) simp
  have d: "dispatchCall 4 = (Some 0, Some 0, Some 1)"
    using n GPUSize32_nat [of 1] by (simp add: dispatchCall_def)
  have dr: "drawCall 4 = (Some 6, Some 32)"
    using GPUSize32_nat [of 6] GPUSize32_nat [of 32] by (simp add: drawCall_def)
  have r: "snd (render ?g) \<and> cell_storage_buffer (fst (render ?g)) = cell_storage_buffer ?g"
    using bg by (simp add: render_def Let_def setupGame_fields d dr computePass_def invocations_def)
  have s: "simulate (gridU32 4) (replicate 16 1) (replicate 16 1) (0, 0) ! 0 = 0"
    by (simp add: simulate_def aliveNeighbors_def cellState_def cellIndex_def rem_u32_def
        gridU32_def load_def store_def Let_def)
  show ?thesis
    using bg r s by (simp add: setupGame_alive)
qed

section \<open>Neighbour lookups, draw call and dispatch\<close>

text \<open>
  Claim C2 on a grid of side 24, at the cell \<open>(0, 0)\<close>: the lookups to the left and
  above read column and row 15, where the torus has column and row 23. A live cell at
  \<open>(23, 0)\<close> is not counted, and a live cell at \<open>(15, 0)\<close> is.
\<close>

theorem wrap_fails_on_24:
  "map (\<lambda>k. unat (cellIndex (gridU32 24) k)) (neighborCells (0, 0)) =
     [1, 15, 24, 360, 25, 375, 361, 39] \<and>
   map (\<lambda>d. torusIndex 24 24 d (0, 0)) neighborOffsets =
     [1, 23, 24, 552, 25, 575, 553, 47] \<and>
   aliveNeighbors (gridU32 24) ((replicate 576 0)[23 := 1]) (0, 0) = 0 \<and>
   aliveNeighbors (gridU32 24) ((replicate 576 0)[15 := 1]) (0, 0) = 1"
  by (simp add: neighborCells_def neighborOffsets_def torusIndex_def wrapped_def
      aliveNeighbors_def cellState_def cellIndex_def rem_u32_def gridU32_def load_def Let_def)

text \<open>
  In real arithmetic the vertex shader places instance \<open>y * w + x\<close> at the grid
  coordinate \<open>(x, y)\<close>.
\<close>

lemma vertexMain_cell:
  assumes "x < w"
  shows "cell (vertexMain (real w, real h) states pos (y * w + x)) = (real x, real y)"
proof -
  have f: "\<lfloor>real (y * w + x) / real w\<rfloor> = int ((y * w + x) div w)"
    by (rule floor_divide_of_nat_eq)
  have d: "(y * w + x) div w = y" using assms by simp
  have nn: "0 \<le> real (y * w + x) / real w" by simp
  have "rem (real (y * w + x)) (real w) = real (y * w + x) - real w * of_int \<lfloor>real (y * w + x) / real w\<rfloor>"
    using nn unfolding rem_def trunc_def by simp
  also have "\<dots> = real x" unfolding f d by (simp add: algebra_simps)
  finally have r: "rem (real (y * w + x)) (real w) = real x" .
  show ?thesis
    using r f d by (simp add: vertexMain_def Let_def)
qed

text \<open>
  Claim C3 on the grid of side 256: the draw call asks for 131072 instances where the grid
  has 65536 cells and the state buffer 65536 entries; instance 65536 is placed at the
  coordinate \<open>(0, 256)\<close>, outside the grid.
\<close>

theorem draw_twice_the_cells:
  "drawCall 256 = (Some 6, Some 131072) \<and>
   length (cell_storage_buffer (setupGame 256 (1 / 2) 60 (\<lambda>i. 1)) ! 0) = 65536 \<and>
   cell (vertexMain (256, 256) (cell_storage_buffer (setupGame 256 (1 / 2) 60 (\<lambda>i. 1)) ! 0)
           (- 0.8, - 0.8) 65536) = (0, 256)"
proof -
  have dr: "drawCall 256 = (Some 6, Some 131072)"
    using GPUSize32_nat [of 6] GPUSize32_nat [of 131072] by (simp add: drawCall_def)
  have c: "cell (vertexMain (real 256, real 256) states pos (256 * 256 + 0)) = (real 0, real 256)"
    for states pos
    by (rule vertexMain_cell) simp
  show ?thesis
    using dr c by (simp add: setupGame_alive)
qed

text \<open>
  Claim C8 on a grid of side 12: the dispatch is of \<open>1 \<times> 1 \<times> 1\<close> workgroups, where
  \<open>ceil (12 / 8) = 2\<close>; no invocation has the id \<open>(8, 0)\<close>, and after \<open>render\<close> the
  written buffer still holds 1 at that cell, where its update gives 0.
\<close>

theorem dispatch_rounds_down:
  "dispatchCall 12 = (Some 1, Some 1, Some 1) \<and> \<lceil>12 / 8 :: real\<rceil> = 2 \<and>
   (8, 0) \<notin> set (invocations 1 1) \<and>
   cell_storage_buffer (fst (render (setupGame 12 (1 / 2) 60 (\<lambda>i. 1)))) ! 1 ! 8 = 1 \<and>
   simulate (gridU32 12) (cell_storage_buffer (setupGame 12 (1 / 2) 60 (\<lambda>i. 1)) ! 0)
     (cell_storage_buffer (setupGame 12 (1 / 2) 60 (\<lambda>i. 1)) ! 1) (8, 0) ! 8 = 0"
proof -
  let ?g = "setupGame 12 (1 / 2) 60 (\<lambda>i. 1)"
  let ?bg = "\<lparr>binding2 = 0, binding3 = 1\<rparr>"
  have bg: "selectBindGroup (step ?g) = Some ?bg"
    by (simp add: setupGame_fields selectBindGroup_zero)
  have n: "GPUSize32 (real 12 / 8) = Some (12 div 8)" by (rule GPUSize32_eighth) simp
  have d: "dispatchCall 12 = (Some 1, Some 1, Some 1)"
    using n GPUSize32_nat [of 1] by (simp add: dispatchCall_def)
  have c: "\<lceil>12 / 8 :: real\<rceil> = 2" by (simp add: ceiling_eq_iff)
  have m: "(8, 0) \<notin> set (invocations 1 1)" by (simp add: set_invocations)
  have small: "grid_size ?g * grid_size ?g * 2 < 2 ^ 32" by (simp add: setupGame_fields)
  have r: "cell_storage_buffer (fst (render ?g)) =
           fold (invoke (gridU32 12) ?bg) (invocations 1 1) (cell_storage_buffer ?g)"
    using render_dispatch [OF bg small] by (simp add: setupGame_fields computePass_def)
  have idx: "\<forall>c\<in>set (invocations 1 1).
               unat (cellIndex (gridU32 12) (of_nat (fst c), of_nat (snd c))) \<noteq> 8"
  proof
    fix c assume "c \<in> set (invocations 1 1)"
    then have b: "fst c < 8" "snd c < 8" by (auto simp: set_invocations)
    then have "unat (cellIndex (gridU32 12) (of_nat (fst c), of_nat (snd c))) = snd c * 12 + fst c"
      by (intro grid_index) simp_all
    then show "unat (cellIndex (gridU32 12) (of_nat (fst c), of_nat (snd c))) \<noteq> 8"
      using b by (cases "snd c") simp_all
  qed
  have "fold (invoke (gridU32 12) ?bg) (invocations 1 1) (cell_storage_buffer ?g) ! binding3 ?bg ! 8
        = cell_storage_buffer ?g ! binding3 ?bg ! 8"
    using idx by (intro fold_invoke_unwritten) (simp_all add: setupGame_alive)
  then have u: "cell_storage_buffer (fst (render ?g)) ! 1 ! 8 = 1"
    by (simp add: r setupGame_alive)
  have s: "simulate (gridU32 12) (replicate 144 1) (replicate 144 1) (8, 0) ! 8 = 0"
    by (simp add: simulate_def aliveNeighbors_def cellState_def cellIndex_def rem_u32_def
        gridU32_def load_def store_def Let_def)
  show ?thesis
    using d c m u s by (simp add: setupGame_alive)
qed

text \<open>
  Where the extent divides \<open>2^32\<close>, reducing \<open>x - 1\<close> and \<open>x + 1\<close> after the
  wrap-around of \<open>u32\<close> gives the coordinate on the torus.
\<close>

lemma wrap_same: "x < gs \<Longrightarrow> gs < 2 ^ 32 \<Longrightarrow> unat (of_nat x :: u32) mod gs = wrapped gs 0 x"
  by (simp add: wrapped_def unat_of_nat nat_mod_distrib)

lemma wrap_inc:
  assumes "x < gs" "gs < 2 ^ 32"
  shows "unat ((of_nat x :: u32) + 1) mod gs = wrapped gs 1 x"
proof -
  have "x + 1 < 2 ^ 32" using assms by simp
  then have "unat ((of_nat x :: u32) + 1) = x + 1"
    using assms by (simp add: unat_word_ariths unat_of_nat)
  moreover have "wrapped gs 1 x = (x + 1) mod gs"
    by (simp add: wrapped_def nat_mod_distrib nat_add_distrib)
  ultimately show ?thesis by simp
qed

lemma wrap_dec:
  assumes "x < gs" "gs < 2 ^ 32" "gs dvd 2 ^ 32"
  shows "unat ((of_nat x :: u32) - 1) mod gs = wrapped gs (- 1) x"
proof (cases "x = 0")
  case True
  obtain k where k: "(2::nat) ^ 32 = gs * k" using assms(3) by (auto simp: dvd_def)
  have kpos: "0 < k" using k by (cases k) simp_all
  have "(2::nat) ^ 32 - 1 = gs * (k - 1) + (gs - 1)"
    using k kpos assms(1,2) by (simp add: algebra_simps)
  then have "((2::nat) ^ 32 - 1) mod gs = (gs - 1) mod gs"
    by (metis mod_mult_self4)
  then have "((2::nat) ^ 32 - 1) mod gs = gs - 1" using assms(1) by simp
  moreover have "unat ((of_nat x :: u32) - 1) = 2 ^ 32 - 1"
    using True by (simp add: unsigned_minus_1_eq_mask mask_eq_exp_minus_1)
  moreover have "wrapped gs (- 1) x = gs - 1"
  proof -
    have "(- 1) mod int gs = int gs - 1"
      using assms(1) by (simp add: zmod_minus1)
    then show ?thesis using True assms(1) by (simp add: wrapped_def)
  qed
  ultimately show ?thesis by simp
next
  case False
  have lt: "x < 2 ^ 32" using assms by simp
  have "(of_nat x :: u32) \<noteq> 0"
    using False lt by (simp add: of_nat_0 unat_of_nat word_unat_eq_iff)
  then have "unat ((of_nat x :: u32) - 1) = x - 1"
    using lt by (simp add: unat_minus_one unat_of_nat)
  moreover have "wrapped gs (- 1) x = x - 1"
  proof -
    have "int x - 1 = int (x - 1)" using False by simp
    then have "(int x + - 1) mod int gs = int (x - 1)"
      using assms(1) False by simp
    then show ?thesis by (simp add: wrapped_def)
  qed
  ultimately show ?thesis using assms(1) by simp
qed

lemma lookups_on_torus:
  assumes gs: "0 < gs" "gs * gs < 2 ^ 32" and dvd: "gs dvd 2 ^ 32" and x: "x < gs" and y: "y < gs"
  shows "map (\<lambda>k. unat (cellIndex (gridU32 gs) k)) (neighborCells (of_nat x, of_nat y)) =
         map (\<lambda>d. torusIndex gs gs d (x, y)) neighborOffsets"
proof -
  have "gs \<le> gs * gs" using gs(1) by simp
  then have lt: "gs < 2 ^ 32" using gs(2) by (rule le_less_trans)
  have u: "unat (fst (gridU32 gs)) = gs" "unat (snd (gridU32 gs)) = gs"
    using unat_gridU32 [OF lt] by simp_all
  have idx: "unat (cellIndex (gridU32 gs) (a, b)) = unat b mod gs * gs + unat a mod gs" for a b
    using unat_cellIndex [of "gridU32 gs" "(a, b)"] gs by (simp add: u)
  note w = wrap_same [OF x lt] wrap_same [OF y lt] wrap_inc [OF x lt] wrap_inc [OF y lt]
    wrap_dec [OF x lt dvd] wrap_dec [OF y lt dvd]
  show ?thesis
    by (simp add: neighborCells_def neighborOffsets_def Let_def idx torusIndex_def w)
qed

text \<open>
  Where the grid side divides \<open>2^32\<close> the eight lookups are the eight Moore neighbours on
  the torus, and the cell written follows the table on their live count.
\<close>

lemma liveLookups_liveMoore:
  assumes gs: "0 < gs" "gs * gs < 2 ^ 32" and dvd: "gs dvd 2 ^ 32" and x: "x < gs" and y: "y < gs"
  shows "liveLookups (gridU32 gs) cells (of_nat x, of_nat y) = liveMoore gs gs cells (x, y)"
proof -
  let ?f = "\<lambda>k. unat (cellIndex (gridU32 gs) k)"
  let ?Q = "\<lambda>i. load cells i = 1"
  have "liveLookups (gridU32 gs) cells (of_nat x, of_nat y) =
        length (filter (?Q \<circ> ?f) (neighborCells (of_nat x, of_nat y)))"
    by (simp add: liveLookups_def cellState_def comp_def)
  also have "\<dots> = length (filter ?Q (map ?f (neighborCells (of_nat x, of_nat y))))"
    by (simp add: filter_map)
  also have "\<dots> = length (filter ?Q (map (\<lambda>d. torusIndex gs gs d (x, y)) neighborOffsets))"
    by (simp only: lookups_on_torus [OF gs dvd x y])
  also have "\<dots> = liveMoore gs gs cells (x, y)"
    by (simp add: liveMoore_def filter_map comp_def)
  finally show ?thesis .
qed

lemma simulate_life_rule_torus:
  assumes bits: "\<forall>v\<in>set cellStateIn. v = 0 \<or> v = 1"
    and gs: "0 < gs" "gs * gs < 2 ^ 32" and dvd: "gs dvd 2 ^ 32"
    and len: "length cellStateIn = gs * gs" and out: "length cellStateOut = length cellStateIn"
    and x: "x < gs" and y: "y < gs"
  shows "load (simulate (gridU32 gs) cellStateIn cellStateOut (of_nat x, of_nat y)) (y * gs + x) =
           (if life_rule (load cellStateIn (y * gs + x) = 1) (liveMoore gs gs cellStateIn (x, y))
            then 1 else 0)"
proof -
  have "gs \<le> gs * gs" using gs(1) by simp
  then have lt: "gs < 2 ^ 32" using gs(2) by (rule le_less_trans)
  have u: "unat (fst (gridU32 gs)) = gs" "unat (snd (gridU32 gs)) = gs"
    using unat_gridU32 [OF lt] by simp_all
  have i: "unat (cellIndex (gridU32 gs) (of_nat x, of_nat y)) = y * gs + x"
    using gs x y by (rule grid_index)
  have "load (simulate (gridU32 gs) cellStateIn cellStateOut (of_nat x, of_nat y))
          (unat (cellIndex (gridU32 gs) (of_nat x, of_nat y))) =
        (if life_rule (load cellStateIn (unat (cellIndex (gridU32 gs) (of_nat x, of_nat y))) = 1)
              (liveLookups (gridU32 gs) cellStateIn (of_nat x, of_nat y))
         then 1 else 0)"
    using bits gs len out by (intro simulate_life_rule) (simp_all add: u)
  then show ?thesis
    by (simp only: i liveLookups_liveMoore [OF gs dvd x y])
qed

text \<open>
  Claim C1 on a grid of side 24, at the dead cell \<open>(0, 0)\<close> with the live cells
  \<open>(1, 0)\<close>, \<open>(0, 1)\<close> and \<open>(23, 0)\<close>: the cell has exactly 3 live Moore neighbours
  on the torus, so the table makes it alive, but the lookups of the update count 2 and the
  cell written is dead.
\<close>

theorem life_rule_fails_on_24:
  "liveMoore 24 24 ((replicate 576 0)[1 := 1, 24 := 1, 23 := 1]) (0, 0) = 3 \<and>
   load ((replicate 576 0)[1 := 1, 24 := 1, 23 := 1]) (unat (cellIndex (gridU32 24) (0, 0))) = 0 \<and>
   life_rule False 3 \<and>
   liveLookups (gridU32 24) ((replicate 576 0)[1 := 1, 24 := 1, 23 := 1]) (0, 0) = 2 \<and>
   load (simulate (gridU32 24) ((replicate 576 0)[1 := 1, 24 := 1, 23 := 1])
           ((replicate 576 0)[1 := 1, 24 := 1, 23 := 1]) (0, 0))
        (unat (cellIndex (gridU32 24) (0, 0))) = 0"
  by (simp add: liveMoore_def neighborOffsets_def torusIndex_def wrapped_def life_rule_def
      liveLookups_def neighborCells_def simulate_def aliveNeighbors_def cellState_def
      cellIndex_def rem_u32_def gridU32_def load_def store_def Let_def)

end
